theory Spec2Isabelle
  imports Complex_Main
begin

section \<open>Text as Python sees it\<close>

text \<open>
  A Python \<open>str\<close> is a sequence of code points. The model covers the texts whose code
  points lie in U+0000..U+00FF, which is exactly the range of \<^typ>\<open>char\<close>; \<open>ord\<close> reads
  the code point. On that range the three library predicates the analyzer relies on are
  written out: \<open>str.isspace\<close>, the regular-expression class \<open>\w\<close> and \<open>str.lower\<close>.
\<close>

definition ord :: "char \<Rightarrow> nat" where
  "ord c = of_char c"

text \<open>\<open>str.isspace\<close>: TAB, LF, VT, FF, CR, the separators FS..US, SPACE, NEL and NBSP.\<close>

definition isspace :: "char \<Rightarrow> bool" where
  "isspace c = ((9 \<le> ord c \<and> ord c \<le> 13) \<or> (28 \<le> ord c \<and> ord c \<le> 32)
                 \<or> ord c = 133 \<or> ord c = 160)"

text \<open>
  \<open>\w\<close> of a \<open>str\<close> pattern: the alphanumeric code points and the underscore. Below
  U+0100 the alphanumerics are the ASCII digits and letters, the ordinal indicators and the
  micro sign, the superscript digits, the vulgar fractions, and the Latin-1 letters (all of
  U+00C0..U+00FF but the multiplication and the division sign).
\<close>

definition isalnum :: "char \<Rightarrow> bool" where
  "isalnum c = ((48 \<le> ord c \<and> ord c \<le> 57) \<or> (65 \<le> ord c \<and> ord c \<le> 90)
                 \<or> (97 \<le> ord c \<and> ord c \<le> 122)
                 \<or> ord c = 170 \<or> ord c = 178 \<or> ord c = 179 \<or> ord c = 181
                 \<or> ord c = 185 \<or> ord c = 186 \<or> (188 \<le> ord c \<and> ord c \<le> 190)
                 \<or> (192 \<le> ord c \<and> ord c \<noteq> 215 \<and> ord c \<noteq> 247))"

definition is_word_char :: "char \<Rightarrow> bool" where
  "is_word_char c = (isalnum c \<or> c = CHR ''_'')"

text \<open>
  \<open>str.lower\<close>, one code point at a time: the ASCII capitals and the Latin-1 capitals
  U+00C0..U+00DE (the multiplication sign apart) move up by 32, everything else stays.
\<close>

definition lower_char :: "char \<Rightarrow> char" where
  "lower_char c = (if (65 \<le> ord c \<and> ord c \<le> 90) \<or> (192 \<le> ord c \<and> ord c \<le> 222 \<and> ord c \<noteq> 215)
                   then char_of (ord c + 32) else c)"

definition lower :: "string \<Rightarrow> string" where
  "lower s = map lower_char s"

text \<open>\<open>str.strip()\<close> with no argument removes the whitespace at both ends.\<close>

definition lstrip :: "string \<Rightarrow> string" where
  "lstrip s = dropWhile isspace s"

definition rstrip :: "string \<Rightarrow> string" where
  "rstrip s = rev (dropWhile isspace (rev s))"

definition strip :: "string \<Rightarrow> string" where
  "strip s = rstrip (lstrip s)"


section \<open>The word pattern\<close>

text \<open>
  \<open>re.findall(r"\b[\w']+\b", s)\<close>. The scan keeps the character before the current
  position (\<open>None\<close> at the start of the text) and the rest of the text. \<open>\b\<close> holds
  where exactly one of the two neighbours is a word character, the two ends of the text
  counting as non-word. The class \<open>[\w']+\<close> is greedy: it takes the whole run of class
  characters and gives characters back one at a time until the closing \<open>\b\<close> holds.
  A position where no attempt succeeds is skipped; after a match the scan resumes at its end.
\<close>

fun word_opt :: "char option \<Rightarrow> bool" where
  "word_opt None = False"
| "word_opt (Some c) = is_word_char c"

definition at_boundary :: "char option \<Rightarrow> char option \<Rightarrow> bool" where
  "at_boundary before after = (word_opt before \<noteq> word_opt after)"

definition in_class :: "char \<Rightarrow> bool" where
  "in_class c = (is_word_char c \<or> c = CHR 0x27)"

definition char_at :: "string \<Rightarrow> nat \<Rightarrow> char option" where
  "char_at s i = (if i < length s then Some (s ! i) else None)"

text \<open>\<open>backtrack n s\<close>: the longest match of at most \<open>n\<close> characters that ends at a boundary.\<close>

fun backtrack :: "nat \<Rightarrow> string \<Rightarrow> nat option" where
  "backtrack 0 s = None"
| "backtrack (Suc n) s =
     (if at_boundary (char_at s n) (char_at s (Suc n)) then Some (Suc n) else backtrack n s)"

definition match_here :: "char option \<Rightarrow> string \<Rightarrow> nat option" where
  "match_here before s =
     (if at_boundary before (char_at s 0) then backtrack (length (takeWhile in_class s)) s
      else None)"

lemma backtrack_bounds: "backtrack k s = Some n \<Longrightarrow> 0 < n \<and> n \<le> k"
  by (induction k) (auto split: if_splits)

lemma match_here_pos: "match_here before s = Some n \<Longrightarrow> 0 < n"
  by (auto simp: match_here_def split: if_splits dest: backtrack_bounds)

function findall_from :: "char option \<Rightarrow> string \<Rightarrow> string list" where
  "findall_from before [] = []"
| "findall_from before (c # cs) =
     (case match_here before (c # cs) of
        Some n \<Rightarrow> take n (c # cs) # findall_from (char_at (c # cs) (n - 1)) (drop n (c # cs))
      | None \<Rightarrow> findall_from (Some c) cs)"
  by pat_completeness auto
termination
  by (relation "measure (\<lambda>(before, s). length s)") (auto dest: match_here_pos)

definition findall_words :: "string \<Rightarrow> string list" where
  "findall_words s = findall_from None s"


text \<open>
  What the scan finds can also be said without the scan: cut the text into its maximal
  runs of class characters, strip the apostrophes from both ends of every run, and keep
  the runs that are not empty.
\<close>

definition rstrip_apostrophes :: "string \<Rightarrow> string" where
  "rstrip_apostrophes r = rev (dropWhile (\<lambda>c. c = CHR 0x27) (rev r))"

definition trim_apostrophes :: "string \<Rightarrow> string" where
  "trim_apostrophes r = rstrip_apostrophes (dropWhile (\<lambda>c. c = CHR 0x27) r)"

function class_runs :: "string \<Rightarrow> string list" where
  "class_runs [] = []"
| "class_runs (c # cs) =
     (if in_class c then takeWhile in_class (c # cs) # class_runs (dropWhile in_class cs)
      else class_runs cs)"
  by pat_completeness auto
termination
  by (relation "measure length") (auto simp: less_Suc_eq_le length_dropWhile_le)

definition run_tokens :: "string \<Rightarrow> string list" where
  "run_tokens s = filter (\<lambda>t. t \<noteq> []) (map trim_apostrophes (class_runs s))"


section \<open>Counting words\<close>

text \<open>
  \<open>Counter(words)\<close> is a dictionary in insertion order: each word is entered with count 1
  at its first occurrence and incremented in place afterwards.
\<close>

fun counter_add :: "string \<Rightarrow> (string \<times> int) list \<Rightarrow> (string \<times> int) list" where
  "counter_add w [] = [(w, 1)]"
| "counter_add w ((k, n) # kvs) =
     (if k = w then (k, n + 1) # kvs else (k, n) # counter_add w kvs)"

definition Counter :: "string list \<Rightarrow> (string \<times> int) list" where
  "Counter ws = foldl (\<lambda>acc w. counter_add w acc) [] ws"

text \<open>
  \<open>most_common(n)\<close> returns the \<open>n\<close> items of largest count, as
  \<open>sorted(items, key=count, reverse=True)[:n]\<close> does: the sort is stable, so items of equal
  count stay in insertion order.
\<close>

definition most_common :: "nat \<Rightarrow> (string \<times> int) list \<Rightarrow> (string \<times> int) list" where
  "most_common n items = take n (sort_key (\<lambda>kv. - snd kv) items)"


section \<open>The analysis\<close>

record scores =
  compound :: real
  pos :: real
  neu :: real
  neg :: real

record analysis_result =
  words :: int
  chars_with_spaces :: int
  chars_without_spaces :: int
  top_words :: "(string \<times> int) list"
  sentiment_label :: string
  sentiment_scores :: scores
  preview :: string

definition label_sentiment :: "real \<Rightarrow> string" where
  "label_sentiment score =
     (if score \<ge> 0.05 then ''Positive''
      else if score \<le> - 0.05 then ''Negative''
      else ''Neutral'')"

text \<open>
  The analyzer object is external: \<open>polarity_scores\<close> is a call into it, modelled as a
  function of the text and of the state of everything outside \<open>analyze_text\<close>, returning
  the scores and the state it leaves behind.
\<close>

type_synonym 'st analyzer = "string \<Rightarrow> 'st \<Rightarrow> scores \<times> 'st"

definition zero_scores :: scores where
  "zero_scores = \<lparr>compound = 0, pos = 0, neu = 0, neg = 0\<rparr>"

definition analyze_text :: "string \<Rightarrow> 'st analyzer \<Rightarrow> 'st \<Rightarrow> analysis_result \<times> 'st" where
  "analyze_text text polarity_scores st =
     (let cleaned = strip text;
          ws = findall_words (lower cleaned);
          word_count = int (length ws);
          characters_with_spaces = int (length cleaned);
          characters_without_spaces = (\<Sum>char \<leftarrow> filter (\<lambda>char. \<not> isspace char) cleaned. 1);
          word_frequencies = most_common 5 (Counter ws);
          (sentiment_scores, st') =
            (if cleaned \<noteq> [] then polarity_scores cleaned st else (zero_scores, st));
          sentiment_label = label_sentiment (compound sentiment_scores)
      in (\<lparr>words = word_count,
           chars_with_spaces = characters_with_spaces,
           chars_without_spaces = characters_without_spaces,
           top_words = word_frequencies,
           sentiment_label = sentiment_label,
           sentiment_scores = sentiment_scores,
           preview = (if length cleaned > 200 then take 200 cleaned @ ''...'' else cleaned)\<rparr>,
          st'))"


text \<open>
  A scorer used to exercise the theorems below: it answers every text with the same
  scores and counts its invocations in the state.
\<close>

definition counting_scorer :: "nat analyzer" where
  "counting_scorer text n = (\<lparr>compound = 0.5, pos = 0.5, neu = 0.5, neg = 0\<rparr>, Suc n)"




text \<open>
  The position at which a word first occurs in a token list (its length for a word that
  does not occur), as \<open>list.index\<close> counts it.
\<close>

definition first_occurrence :: "string list \<Rightarrow> string \<Rightarrow> nat" where
  "first_occurrence ws w = length (takeWhile (\<lambda>x. x \<noteq> w) ws)"


section \<open>The fields of the result\<close>

lemma sum_ones: "(\<Sum>c\<leftarrow>xs. (1::int)) = int (length xs)"
  by (induction xs) simp_all

lemma words_analyze:
  "words (fst (analyze_text text p st)) = int (length (findall_words (lower (strip text))))"
  by (simp add: analyze_text_def Let_def split_def)

lemma chars_with_analyze:
  "chars_with_spaces (fst (analyze_text text p st)) = int (length (strip text))"
  by (simp add: analyze_text_def Let_def split_def)

lemma chars_without_analyze:
  "chars_without_spaces (fst (analyze_text text p st)) =
     int (length (filter (\<lambda>c. \<not> isspace c) (strip text)))"
  by (simp add: analyze_text_def Let_def split_def sum_ones)

lemma top_words_analyze:
  "top_words (fst (analyze_text text p st)) =
     most_common 5 (Counter (findall_words (lower (strip text))))"
  by (simp add: analyze_text_def Let_def split_def)

lemma preview_analyze:
  "preview (fst (analyze_text text p st)) =
     (if length (strip text) > 200 then take 200 (strip text) @ ''...'' else strip text)"
  by (simp add: analyze_text_def Let_def split_def)


lemma label_analyze:
  "sentiment_label (fst (analyze_text text p st)) =
     label_sentiment (compound (sentiment_scores (fst (analyze_text text p st))))"
  by (simp add: analyze_text_def Let_def split_def)

lemma state_analyze:
  "snd (analyze_text text p st) = (if strip text \<noteq> [] then snd (p (strip text) st) else st)"
  by (simp add: analyze_text_def Let_def split_def)


section \<open>Trimming\<close>

lemma rstrip_Cons: "\<not> isspace a \<Longrightarrow> rstrip (a # s) = a # rstrip s"
  by (simp add: rstrip_def dropWhile_append3)

lemma rstrip_idem: "rstrip (rstrip s) = rstrip s"
  by (simp add: rstrip_def)

lemma lstrip_rstrip_lstrip: "lstrip (rstrip (lstrip s)) = rstrip (lstrip s)"
proof (cases "lstrip s")
  case Nil
  have "lstrip [] = []" by (simp add: lstrip_def)
  with Nil show ?thesis by (simp add: rstrip_def)
next
  case (Cons a u)
  then have "\<not> isspace a"
    unfolding lstrip_def by (metis hd_dropWhile list.sel(1) list.distinct(1))
  with Cons show ?thesis by (simp add: rstrip_Cons) (simp add: lstrip_def)
qed

lemma strip_idem: "strip (strip s) = strip s"
  by (simp add: strip_def lstrip_rstrip_lstrip rstrip_idem)

lemma lstrip_pad: "\<forall>c \<in> set a. isspace c \<Longrightarrow> lstrip (a @ u) = lstrip u"
  by (simp add: lstrip_def dropWhile_append2)

lemma rstrip_pad:
  assumes "\<forall>c \<in> set b. isspace c"
  shows "rstrip (u @ b) = rstrip u"
proof -
  have "dropWhile isspace (rev b @ rev u) = dropWhile isspace (rev u)"
    using assms by (intro dropWhile_append2) simp
  then show ?thesis by (simp add: rstrip_def)
qed

text \<open>Whitespace put before and after a text is trimmed off again.\<close>

lemma strip_padded:
  assumes "\<forall>c \<in> set a. isspace c" and "\<forall>c \<in> set b. isspace c"
  shows "strip (a @ t @ b) = strip t"
proof (cases "\<forall>c \<in> set t. isspace c")
  case True
  with assms(2) have "\<forall>c \<in> set (t @ b). isspace c" by auto
  then have "lstrip (t @ b) = []" unfolding lstrip_def by simp
  moreover from True have "lstrip t = []" unfolding lstrip_def by simp
  ultimately show ?thesis
    using assms(1) by (simp add: strip_def lstrip_pad)
next
  case False
  then obtain x where "x \<in> set t" and "\<not> isspace x" by blast
  then have "lstrip (t @ b) = lstrip t @ b"
    unfolding lstrip_def by (rule dropWhile_append1)
  with assms show ?thesis
    by (simp add: strip_def lstrip_pad rstrip_pad)
qed

text \<open>A text that neither starts nor ends with whitespace is its own trimmed form.\<close>

lemma strip_core:
  assumes "t = [] \<or> (\<not> isspace (hd t) \<and> \<not> isspace (last t))"
  shows "strip t = t"
proof (cases "t = []")
  case True
  then show ?thesis by (simp add: strip_def lstrip_def rstrip_def)
next
  case False
  with assms have ends: "\<not> isspace (hd t)" "\<not> isspace (last t)" by auto
  from False ends(1) have "lstrip t = t"
    unfolding lstrip_def by (cases t) simp_all
  moreover from False ends(2) have "rstrip t = t"
    unfolding rstrip_def by (cases t rule: rev_cases) simp_all
  ultimately show ?thesis by (simp add: strip_def)
qed

text \<open>The trimmed form neither starts nor ends with whitespace.\<close>

lemma strip_ends:
  "strip t = [] \<or> (\<not> isspace (hd (strip t)) \<and> \<not> isspace (last (strip t)))"
proof (cases "strip t = []")
  case True
  then show ?thesis by simp
next
  case False
  have "lstrip (strip t) = strip t"
    by (simp add: strip_def lstrip_rstrip_lstrip)
  with False have first: "\<not> isspace (hd (strip t))"
    unfolding lstrip_def using hd_dropWhile [of isspace "strip t"] by simp
  let ?d = "dropWhile isspace (rev (lstrip t))"
  from False have ne: "?d \<noteq> []"
    by (simp add: strip_def rstrip_def)
  then have "\<not> isspace (hd ?d)"
    by (rule hd_dropWhile)
  moreover from ne have "last (strip t) = hd ?d"
    by (simp add: strip_def rstrip_def last_rev)
  ultimately show ?thesis using first by simp
qed

text \<open>The text is its trimmed form with whitespace before and after it.\<close>

lemma strip_decompose:
  "\<exists>a b. t = a @ strip t @ b \<and> (\<forall>c \<in> set a. isspace c) \<and> (\<forall>c \<in> set b. isspace c)"
proof -
  let ?a = "takeWhile isspace t"
  let ?b = "rev (takeWhile isspace (rev (lstrip t)))"
  have "lstrip t = strip t @ ?b"
    unfolding strip_def rstrip_def by (metis rev_append rev_rev_ident takeWhile_dropWhile_id)
  moreover have "t = ?a @ lstrip t"
    by (simp add: lstrip_def)
  ultimately have "t = ?a @ strip t @ ?b"
    by simp
  moreover have "\<forall>c \<in> set ?a. isspace c" and "\<forall>c \<in> set ?b. isspace c"
    by (auto dest: set_takeWhileD)
  ultimately show ?thesis by blast
qed

text \<open>
  C9. Trimming invariance. Analysing a text and analysing its trimmed form give the same
  result record and leave the same state behind, whatever the scorer; the trimmed form is
  the text without the whitespace before and after it (it neither starts nor ends with
  whitespace, and the text is the trimmed form between two stretches of whitespace); and
  whitespace put before and after a text changes nothing in the outcome.
\<close>

theorem analyze_text_strip_invariant:
  "analyze_text text polarity_scores st = analyze_text (strip text) polarity_scores st
   \<and> (strip text = [] \<or> (\<not> isspace (hd (strip text)) \<and> \<not> isspace (last (strip text))))
   \<and> (\<exists>a b. text = a @ strip text @ b \<and> (\<forall>c \<in> set a. isspace c) \<and> (\<forall>c \<in> set b. isspace c))
   \<and> ((\<forall>c \<in> set a. isspace c) \<and> (\<forall>c \<in> set b. isspace c) \<longrightarrow>
        analyze_text (a @ text @ b) polarity_scores st = analyze_text text polarity_scores st)"
proof -
  have same: "analyze_text text polarity_scores st = analyze_text (strip text) polarity_scores st"
    by (simp add: analyze_text_def strip_idem)
  have padded: "analyze_text (a @ text @ b) polarity_scores st = analyze_text text polarity_scores st"
    if "\<forall>c \<in> set a. isspace c" and "\<forall>c \<in> set b. isspace c"
    using strip_padded [OF that, of "text"] by (simp add: analyze_text_def)
  from same padded strip_ends [of "text"] strip_decompose [of "text"] show ?thesis
    by blast
qed

theorem analyze_text_strip_invariant_witness:
  "analyze_text ([CHR '' '', CHR 0x09] @ ''hi  there'' @ [CHR '' '', CHR 0x0A]) counting_scorer 0
     = analyze_text ''hi  there'' counting_scorer 0
   \<and> strip ([CHR '' '', CHR 0x09] @ ''hi  there'' @ [CHR '' '', CHR 0x0A]) = ''hi  there''
   \<and> chars_with_spaces (fst (analyze_text ([CHR '' '', CHR 0x09] @ ''hi  there''
         @ [CHR '' '', CHR 0x0A]) counting_scorer 0)) = 9
   \<and> words (fst (analyze_text ([CHR '' '', CHR 0x09] @ ''hi  there''
         @ [CHR '' '', CHR 0x0A]) counting_scorer 0)) = 2
   \<and> snd (analyze_text ([CHR '' '', CHR 0x09] @ ''hi  there'' @ [CHR '' '', CHR 0x0A])
         counting_scorer 0) = 1"
proof -
  have before: "\<forall>c \<in> set [CHR '' '', CHR 0x09]. isspace c"
    by (simp add: isspace_def ord_def)
  have after: "\<forall>c \<in> set [CHR '' '', CHR 0x0A]. isspace c"
    by (simp add: isspace_def ord_def)
  have trimmed: "strip ([CHR '' '', CHR 0x09] @ ''hi  there'' @ [CHR '' '', CHR 0x0A])
                   = ''hi  there''"
    by code_simp
  have core: "strip ''hi  there'' = ''hi  there''"
    by code_simp
  have tokens: "findall_words (lower ''hi  there'') = [''hi'', ''there'']"
    by code_simp
  from analyze_text_strip_invariant [of "''hi  there''" counting_scorer 0
      "[CHR '' '', CHR 0x09]" "[CHR '' '', CHR 0x0A]"] before after
  have same: "analyze_text ([CHR '' '', CHR 0x09] @ ''hi  there'' @ [CHR '' '', CHR 0x0A])
                counting_scorer 0 = analyze_text ''hi  there'' counting_scorer 0"
    by blast
  have "chars_with_spaces (fst (analyze_text ''hi  there'' counting_scorer 0)) = 9"
    and "words (fst (analyze_text ''hi  there'' counting_scorer 0)) = 2"
    and "snd (analyze_text ''hi  there'' counting_scorer 0) = 1"
    unfolding chars_with_analyze words_analyze state_analyze core tokens
    by (simp_all add: counting_scorer_def)
  with same trimmed show ?thesis by simp
qed


section \<open>Sentiment label\<close>

text \<open>
  C2. For a compound score in \<open>[-1, 1]\<close> the label is Positive exactly when the score is
  at least 0.05, Negative exactly when it is at most -0.05, and Neutral exactly when it is
  neither.
\<close>

theorem label_sentiment_thresholds:
  assumes "- 1 \<le> c" and "c \<le> 1"
  shows "(label_sentiment c = ''Positive'' \<longleftrightarrow> c \<ge> 0.05)
       \<and> (label_sentiment c = ''Negative'' \<longleftrightarrow> c \<le> - 0.05)
       \<and> (label_sentiment c = ''Neutral'' \<longleftrightarrow> \<not> c \<ge> 0.05 \<and> \<not> c \<le> - 0.05)"
  by (simp add: label_sentiment_def)

theorem label_sentiment_thresholds_witness:
  "label_sentiment 0.05 = ''Positive'' \<and> label_sentiment (- 0.05) = ''Negative''
   \<and> label_sentiment 0.049 = ''Neutral'' \<and> label_sentiment (- 1) = ''Negative''
   \<and> label_sentiment 1 = ''Positive''"
  using label_sentiment_thresholds [of "0.05"] label_sentiment_thresholds [of "- 0.05"]
    label_sentiment_thresholds [of "0.049"] label_sentiment_thresholds [of "- 1"]
    label_sentiment_thresholds [of 1]
  by simp


section \<open>Preview\<close>

text \<open>
  C3. When the trimmed text has more than 200 characters, the preview is its first 200
  characters followed by the three-character marker \<open>...\<close>, 203 characters in all;
  otherwise the preview is the trimmed text itself.
\<close>

theorem preview_truncation:
  "(length (strip text) > 200 \<longrightarrow>
      preview (fst (analyze_text text polarity_scores st)) = take 200 (strip text) @ ''...'' \<and>
      length (preview (fst (analyze_text text polarity_scores st))) = 203)
   \<and> (length (strip text) \<le> 200 \<longrightarrow>
      preview (fst (analyze_text text polarity_scores st)) = strip text)"
  by (simp add: preview_analyze)

theorem preview_truncation_witness:
  "200 < length (strip ('' '' @ replicate 201 (CHR ''a'') @ ''  ''))
   \<and> preview (fst (analyze_text ('' '' @ replicate 201 (CHR ''a'') @ ''  '') counting_scorer 0))
       = replicate 200 (CHR ''a'') @ ''...''
   \<and> length (preview (fst (analyze_text ('' '' @ replicate 201 (CHR ''a'') @ ''  '')
       counting_scorer 0))) = 203
   \<and> length (strip '' hi  '') \<le> 200
   \<and> preview (fst (analyze_text '' hi  '' counting_scorer 0)) = ''hi''"
proof -
  have long: "strip ('' '' @ replicate 201 (CHR ''a'') @ ''  '') = replicate 201 (CHR ''a'')"
    by code_simp
  have short: "strip '' hi  '' = ''hi''"
    by code_simp
  have take_long: "take 200 (replicate 201 (CHR ''a'')) = replicate 200 (CHR ''a'')"
    by simp
  show ?thesis
    using preview_truncation [of "'' '' @ replicate 201 (CHR ''a'') @ ''  ''" counting_scorer 0]
      preview_truncation [of "'' hi  ''" counting_scorer 0]
    unfolding long short take_long by simp
qed


section \<open>Character counts\<close>

text \<open>
  C6. \<open>chars_with_spaces\<close> is the length of the trimmed text, in its original case, and
  \<open>chars_without_spaces\<close> is that length less the number of whitespace characters of the
  trimmed text. Said on the input: when the text is \<open>t\<close> between two stretches of
  whitespace, and \<open>t\<close> neither starts nor ends with whitespace, the two counts are the
  length of \<open>t\<close> and that length less the number of whitespace characters inside \<open>t\<close>.
\<close>

theorem character_counts:
  "chars_with_spaces (fst (analyze_text text polarity_scores st)) = int (length (strip text))
   \<and> chars_without_spaces (fst (analyze_text text polarity_scores st)) =
       int (length (strip text)) - int (length (filter isspace (strip text)))
   \<and> ((\<forall>c \<in> set a. isspace c) \<and> (\<forall>c \<in> set b. isspace c)
        \<and> (t = [] \<or> (\<not> isspace (hd t) \<and> \<not> isspace (last t))) \<longrightarrow>
        chars_with_spaces (fst (analyze_text (a @ t @ b) polarity_scores st)) = int (length t)
        \<and> chars_without_spaces (fst (analyze_text (a @ t @ b) polarity_scores st)) =
            int (length t) - int (length (filter isspace t)))"
proof -
  have counts: "chars_with_spaces (fst (analyze_text u polarity_scores st)) = int (length (strip u))
    \<and> chars_without_spaces (fst (analyze_text u polarity_scores st)) =
        int (length (strip u)) - int (length (filter isspace (strip u)))" for u
    using sum_length_filter_compl [of isspace "strip u"]
    by (simp add: chars_with_analyze chars_without_analyze)
  have "strip (a @ t @ b) = t"
    if "\<forall>c \<in> set a. isspace c" and "\<forall>c \<in> set b. isspace c"
      and "t = [] \<or> (\<not> isspace (hd t) \<and> \<not> isspace (last t))"
    using strip_padded [OF that(1,2), of t] strip_core [OF that(3)] by simp
  with counts [of "text"] counts [of "a @ t @ b"] show ?thesis
    by simp
qed

theorem character_counts_witness:
  "chars_with_spaces (fst (analyze_text ([CHR '' '', CHR 0x0A] @ [CHR ''a'', CHR '' '', CHR ''b'',
        CHR 0x09, CHR ''c''] @ [CHR 0x0D, CHR '' '']) counting_scorer 0)) = 5
   \<and> chars_without_spaces (fst (analyze_text ([CHR '' '', CHR 0x0A] @ [CHR ''a'', CHR '' '',
        CHR ''b'', CHR 0x09, CHR ''c''] @ [CHR 0x0D, CHR '' '']) counting_scorer 0)) = 3"
proof -
  have before: "\<forall>c \<in> set [CHR '' '', CHR 0x0A]. isspace c"
    by (simp add: isspace_def ord_def)
  have after: "\<forall>c \<in> set [CHR 0x0D, CHR '' '']. isspace c"
    by (simp add: isspace_def ord_def)
  have ends: "[CHR ''a'', CHR '' '', CHR ''b'', CHR 0x09, CHR ''c''] = []
      \<or> (\<not> isspace (hd [CHR ''a'', CHR '' '', CHR ''b'', CHR 0x09, CHR ''c''])
         \<and> \<not> isspace (last [CHR ''a'', CHR '' '', CHR ''b'', CHR 0x09, CHR ''c'']))"
    by (simp add: isspace_def ord_def)
  have inner: "filter isspace [CHR ''a'', CHR '' '', CHR ''b'', CHR 0x09, CHR ''c'']
                 = [CHR '' '', CHR 0x09]"
    by (simp add: isspace_def ord_def)
  from character_counts [of "[CHR '' '', CHR 0x0A] @ [CHR ''a'', CHR '' '', CHR ''b'',
        CHR 0x09, CHR ''c''] @ [CHR 0x0D, CHR '' '']" counting_scorer 0
      "[CHR '' '', CHR 0x0A]" "[CHR 0x0D, CHR '' '']"
      "[CHR ''a'', CHR '' '', CHR ''b'', CHR 0x09, CHR ''c'']"] before after ends
  have "chars_with_spaces (fst (analyze_text ([CHR '' '', CHR 0x0A] @ [CHR ''a'', CHR '' '',
          CHR ''b'', CHR 0x09, CHR ''c''] @ [CHR 0x0D, CHR '' '']) counting_scorer 0))
          = int (length [CHR ''a'', CHR '' '', CHR ''b'', CHR 0x09, CHR ''c''])
      \<and> chars_without_spaces (fst (analyze_text ([CHR '' '', CHR 0x0A] @ [CHR ''a'', CHR '' '',
          CHR ''b'', CHR 0x09, CHR ''c''] @ [CHR 0x0D, CHR '' '']) counting_scorer 0))
          = int (length [CHR ''a'', CHR '' '', CHR ''b'', CHR 0x09, CHR ''c''])
            - int (length (filter isspace [CHR ''a'', CHR '' '', CHR ''b'', CHR 0x09, CHR ''c'']))"
    by blast
  then show ?thesis
    unfolding inner by simp
qed


section \<open>Empty text\<close>

text \<open>
  C7. For a text that is empty or consists of whitespace only, the result is the all-zero
  record with label Neutral and an empty preview, and the state comes back untouched: the
  scorer is not called, whatever it is.
\<close>

theorem empty_text_result:
  assumes "text = [] \<or> strip text = []"
  shows "analyze_text text polarity_scores st =
     (\<lparr>words = 0, chars_with_spaces = 0, chars_without_spaces = 0, top_words = [],
       sentiment_label = ''Neutral'',
       sentiment_scores = \<lparr>compound = 0, pos = 0, neu = 0, neg = 0\<rparr>,
       preview = []\<rparr>, st)"
proof -
  from assms have "strip text = []"
    by (auto simp: strip_def lstrip_def rstrip_def)
  then show ?thesis
    by (simp add: analyze_text_def lower_def findall_words_def Counter_def most_common_def
        zero_scores_def label_sentiment_def)
qed

theorem empty_text_result_witness:
  "strip [CHR '' '', CHR 0x09, CHR 0x0A] = [] \<and>
   analyze_text [CHR '' '', CHR 0x09, CHR 0x0A] counting_scorer 7 =
     (\<lparr>words = 0, chars_with_spaces = 0, chars_without_spaces = 0, top_words = [],
       sentiment_label = ''Neutral'',
       sentiment_scores = \<lparr>compound = 0, pos = 0, neu = 0, neg = 0\<rparr>,
       preview = []\<rparr>, 7)
   \<and> analyze_text [] counting_scorer 7 =
     (\<lparr>words = 0, chars_with_spaces = 0, chars_without_spaces = 0, top_words = [],
       sentiment_label = ''Neutral'',
       sentiment_scores = \<lparr>compound = 0, pos = 0, neu = 0, neg = 0\<rparr>,
       preview = []\<rparr>, 7)"
proof -
  have blank: "strip [CHR '' '', CHR 0x09, CHR 0x0A] = []"
    by code_simp
  show ?thesis
    using empty_text_result [of "[CHR '' '', CHR 0x09, CHR 0x0A]" counting_scorer 7]
      empty_text_result [of "[]" counting_scorer 7] blank
    by simp
qed


section \<open>The counter\<close>

lemma Counter_Nil: "Counter [] = []"
  by (simp add: Counter_def)

lemma Counter_snoc: "Counter (ws @ [w]) = counter_add w (Counter ws)"
  by (simp add: Counter_def)

lemma counter_add_keys:
  "map fst (counter_add w kvs) =
     (if w \<in> set (map fst kvs) then map fst kvs else map fst kvs @ [w])"
  by (induction w kvs rule: counter_add.induct) auto

lemma counter_add_sum: "sum_list (map snd (counter_add w kvs)) = sum_list (map snd kvs) + 1"
  by (induction w kvs rule: counter_add.induct) auto

lemma counter_add_map_of:
  "map_of (counter_add w kvs) k =
     (if k = w then Some (case map_of kvs w of None \<Rightarrow> 1 | Some n \<Rightarrow> n + 1) else map_of kvs k)"
  by (induction w kvs rule: counter_add.induct) auto

lemma Counter_keys_list: "set (map fst (Counter ws)) = set ws"
  by (induction ws rule: rev_induct) (auto simp: Counter_Nil Counter_snoc counter_add_keys)

lemma Counter_keys_set: "fst ` set (Counter ws) = set ws"
  using Counter_keys_list [of ws] by simp

lemma Counter_distinct: "distinct (map fst (Counter ws))"
  by (induction ws rule: rev_induct) (auto simp: Counter_Nil Counter_snoc counter_add_keys)

lemma Counter_length: "length (Counter ws) = card (set ws)"
  using distinct_card [OF Counter_distinct, of ws] by (simp add: Counter_keys_set)

text \<open>The counter maps every word of the list to its number of occurrences.\<close>

lemma Counter_map_of:
  "map_of (Counter ws) w = (if w \<in> set ws then Some (int (count_list ws w)) else None)"
proof (induction ws rule: rev_induct)
  case Nil
  show ?case by (simp add: Counter_Nil)
next
  case (snoc x ws)
  then show ?case
    by (auto simp: Counter_snoc counter_add_map_of)
qed

lemma Counter_entry:
  assumes "(w, c) \<in> set (Counter ws)"
  shows "w \<in> set ws \<and> c = int (count_list ws w)"
proof -
  from assms have "map_of (Counter ws) w = Some c"
    using Counter_distinct by simp
  then show ?thesis
    by (simp add: Counter_map_of split: if_splits)
qed

lemma Counter_sum: "sum_list (map snd (Counter ws)) = int (length ws)"
  by (induction ws rule: rev_induct) (simp_all add: Counter_Nil Counter_snoc counter_add_sum)

lemma count_list_pos: "w \<in> set ws \<Longrightarrow> 0 < count_list ws w"
  using count_list_0_iff [of ws w] by auto

lemma first_occurrence_append:
  "w \<in> set ws \<Longrightarrow> first_occurrence (ws @ vs) w = first_occurrence ws w"
  by (simp add: first_occurrence_def takeWhile_append1)

lemma first_occurrence_new: "w \<notin> set ws \<Longrightarrow> first_occurrence (ws @ [w]) w = length ws"
  unfolding first_occurrence_def by (induction ws) auto

lemma first_occurrence_less: "w \<in> set ws \<Longrightarrow> first_occurrence ws w < length ws"
  unfolding first_occurrence_def by (induction ws) auto

text \<open>The keys of the counter stand in the order in which the words first occur.\<close>

lemma Counter_keys_order:
  "sorted_wrt (\<lambda>a b. first_occurrence ws a < first_occurrence ws b) (map fst (Counter ws))"
proof (induction ws rule: rev_induct)
  case Nil
  show ?case by (simp add: Counter_Nil)
next
  case (snoc x ws)
  have keep: "sorted_wrt (\<lambda>a b. first_occurrence (ws @ [x]) a < first_occurrence (ws @ [x]) b)
                (map fst (Counter ws))"
  proof (rule sorted_wrt_mono_rel [OF _ snoc.IH])
    fix a b
    assume "a \<in> set (map fst (Counter ws))" "b \<in> set (map fst (Counter ws))"
      and "first_occurrence ws a < first_occurrence ws b"
    then show "first_occurrence (ws @ [x]) a < first_occurrence (ws @ [x]) b"
      by (simp add: Counter_keys_set first_occurrence_append)
  qed
  show ?case
  proof (cases "x \<in> set ws")
    case True
    with keep show ?thesis
      by (simp add: Counter_snoc counter_add_keys Counter_keys_set)
  next
    case False
    have "\<forall>a \<in> set (map fst (Counter ws)).
            first_occurrence (ws @ [x]) a < first_occurrence (ws @ [x]) x"
      using False
      by (simp add: Counter_keys_set first_occurrence_append first_occurrence_new
          first_occurrence_less)
    with keep False show ?thesis
      by (simp add: Counter_snoc counter_add_keys Counter_keys_set sorted_wrt_append)
  qed
qed


section \<open>The ranking\<close>

lemma filtered_order:
  "sorted_wrt R (filter Q xs) \<Longrightarrow> i < j \<Longrightarrow> j < length xs \<Longrightarrow> Q (xs ! i) \<Longrightarrow> Q (xs ! j)
     \<Longrightarrow> R (xs ! i) (xs ! j)"
proof (induction xs arbitrary: i j)
  case Nil
  then show ?case by simp
next
  case (Cons x xs)
  from Cons.prems obtain j' where j: "j = Suc j'" by (cases j) auto
  have tail: "sorted_wrt R (filter Q xs)"
    using Cons.prems(1) by (simp split: if_splits)
  show ?case
  proof (cases i)
    case 0
    with Cons.prems j have "Q x" and "xs ! j' \<in> set (filter Q xs)" by auto
    with Cons.prems(1) 0 j show ?thesis by auto
  next
    case (Suc i')
    with Cons.prems j Cons.IH [OF tail, of i' j'] show ?thesis by simp
  qed
qed

lemma most_common_length: "length (most_common n kvs) = min n (length kvs)"
  by (simp add: most_common_def min.commute)

lemma most_common_subset: "set (most_common n kvs) \<subseteq> set kvs"
  using set_take_subset [of n "sort_key (\<lambda>kv. - snd kv) kvs"] by (simp add: most_common_def)

lemma most_common_descending:
  assumes "i < j" and "j < length (most_common n kvs)"
  shows "snd (most_common n kvs ! j) \<le> snd (most_common n kvs ! i)"
proof -
  let ?S = "sort_key (\<lambda>kv. - snd kv) kvs"
  have "sorted (map (\<lambda>kv. - snd kv) ?S)"
    by (rule sorted_sort_key)
  then have "sorted_wrt (\<lambda>a b. - snd a \<le> - snd b) ?S"
    by (simp add: sorted_map)
  moreover from assms have "j < length ?S" and "j < n"
    by (simp_all add: most_common_def)
  ultimately have "- snd (?S ! i) \<le> - snd (?S ! j)"
    using assms(1) by (simp add: sorted_wrt_iff_nth_less)
  with assms \<open>j < n\<close> show ?thesis
    by (simp add: most_common_def)
qed

text \<open>Items of equal count keep the order they have in the counter.\<close>

lemma most_common_stable:
  assumes "sorted_wrt R kvs" and "i < j" and "j < length (most_common n kvs)"
    and "snd (most_common n kvs ! i) = snd (most_common n kvs ! j)"
  shows "R (most_common n kvs ! i) (most_common n kvs ! j)"
proof -
  let ?f = "\<lambda>kv::string \<times> int. - snd kv"
  let ?S = "sort_key ?f kvs"
  let ?k = "?f (?S ! i)"
  from assms have lens: "j < length ?S" "j < n" "i < n"
    by (simp_all add: most_common_def)
  with assms(4) have same: "?f (?S ! j) = ?k"
    by (simp add: most_common_def)
  have "filter (\<lambda>y. ?f y = ?k) ?S = filter (\<lambda>y. ?f y = ?k) kvs"
    by (rule sort_key_stable)
  moreover have "sorted_wrt R (filter (\<lambda>y. ?f y = ?k) kvs)"
    using assms(1) by (rule sorted_wrt_filter)
  ultimately have "sorted_wrt R (filter (\<lambda>y. ?f y = ?k) ?S)"
    by simp
  from filtered_order [OF this assms(2) lens(1) _ same]
  have "R (?S ! i) (?S ! j)" by simp
  with lens show ?thesis by (simp add: most_common_def)
qed

text \<open>An item left out of the ranking has a count no larger than any item in it.\<close>

lemma most_common_top:
  assumes "x \<in> set kvs" and "x \<notin> set (most_common n kvs)" and "y \<in> set (most_common n kvs)"
  shows "snd x \<le> snd y"
proof -
  let ?S = "sort_key (\<lambda>kv. - snd kv) kvs"
  have "sorted_wrt (\<lambda>a b. - snd a \<le> - snd b) ?S"
    using sorted_sort_key [of "\<lambda>kv. - snd kv" kvs] by (simp add: sorted_map)
  then have "sorted_wrt (\<lambda>a b. - snd a \<le> - snd b) (take n ?S @ drop n ?S)"
    by simp
  then have split: "\<forall>a \<in> set (take n ?S). \<forall>b \<in> set (drop n ?S). - snd a \<le> - snd b"
    unfolding sorted_wrt_append by blast
  have "set ?S = set (take n ?S) \<union> set (drop n ?S)"
    by (metis append_take_drop_id set_append)
  with assms(1,2) have "x \<in> set (drop n ?S)"
    by (auto simp: most_common_def)
  with split assms(3) show ?thesis
    by (auto simp: most_common_def)
qed

text \<open>
  Where the cut falls inside a group of equal counts, the items kept are the ones that
  come first in the counter.
\<close>

lemma most_common_cut:
  assumes "sorted_wrt R kvs" and "x \<in> set kvs" and "x \<notin> set (most_common n kvs)"
    and "y \<in> set (most_common n kvs)" and "snd x = snd y"
  shows "R y x"
proof -
  let ?f = "\<lambda>kv::string \<times> int. - snd kv"
  let ?S = "sort_key ?f kvs"
  from assms(4) obtain i where i: "i < length (take n ?S)" "take n ?S ! i = y"
    unfolding most_common_def in_set_conv_nth by blast
  then have i': "i < n" "i < length ?S" "?S ! i = y"
    by simp_all
  have "set ?S = set (take n ?S) \<union> set (drop n ?S)"
    by (metis append_take_drop_id set_append)
  with assms(2,3) have "x \<in> set (drop n ?S)"
    by (auto simp: most_common_def)
  then obtain d where d: "d < length (drop n ?S)" "drop n ?S ! d = x"
    unfolding in_set_conv_nth by blast
  then have j: "n + d < length ?S" "?S ! (n + d) = x"
    by simp_all
  have "filter (\<lambda>z. ?f z = ?f y) ?S = filter (\<lambda>z. ?f z = ?f y) kvs"
    by (rule sort_key_stable)
  moreover have "sorted_wrt R (filter (\<lambda>z. ?f z = ?f y) kvs)"
    using assms(1) by (rule sorted_wrt_filter)
  ultimately have "sorted_wrt R (filter (\<lambda>z. ?f z = ?f y) ?S)"
    by simp
  from filtered_order [OF this, of i "n + d"] i' j assms(5)
  show ?thesis by simp
qed

lemma sum_list_insort_key:
  "sum_list (map g (insort_key f x xs)) = (g x :: int) + sum_list (map g xs)"
  by (induction xs) auto

lemma sum_list_sort_key: "sum_list (map g (sort_key f xs)) = (sum_list (map g xs) :: int)"
  by (induction xs) (simp_all add: sum_list_insort_key)

lemma most_common_sum:
  assumes "\<forall>kv \<in> set kvs. 0 \<le> snd kv"
  shows "sum_list (map snd (most_common n kvs)) \<le> sum_list (map snd kvs)"
proof -
  let ?S = "sort_key (\<lambda>kv. - snd kv) kvs"
  have total: "sum_list (map snd ?S) = sum_list (map snd kvs)"
    by (rule sum_list_sort_key)
  have "sum_list (map snd ?S) = sum_list (map snd (take n ?S)) + sum_list (map snd (drop n ?S))"
    by (metis append_take_drop_id map_append sum_list_append)
  moreover have "0 \<le> sum_list (map snd (drop n ?S))"
  proof (rule sum_list_nonneg)
    fix v assume "v \<in> set (map snd (drop n ?S))"
    then obtain kv where "kv \<in> set (drop n ?S)" and "v = snd kv" by auto
    moreover from this have "kv \<in> set kvs"
      using set_drop_subset [of n ?S] by auto
    ultimately show "0 \<le> v" using assms by simp
  qed
  ultimately show ?thesis
    using total by (simp add: most_common_def)
qed

text \<open>
  C1. With \<open>ws\<close> the tokens of the lowercased trimmed text and \<open>tw\<close> the \<open>top_words\<close>
  field: \<open>tw\<close> has at most 5 entries (5, or all the distinct words when there are fewer);
  counts never increase along \<open>tw\<close>; of two entries with the same count, the one listed
  first is the word that occurs first in \<open>ws\<close>; every entry pairs a word of \<open>ws\<close> with its
  number of occurrences; a word left out occurs no more often than any word listed, and
  where it occurs as often as a listed word it first occurs after that word; and a text
  that trims to nothing gives the empty sequence.
\<close>

theorem top_words_ranked:
  "(let tw = top_words (fst (analyze_text text polarity_scores st));
        ws = findall_words (lower (strip text))
    in length tw \<le> 5
     \<and> length tw = min 5 (card (set ws))
     \<and> (\<forall>i j. i < j \<and> j < length tw \<longrightarrow> snd (tw ! j) \<le> snd (tw ! i))
     \<and> (\<forall>i j. i < j \<and> j < length tw \<and> snd (tw ! i) = snd (tw ! j) \<longrightarrow>
           first_occurrence ws (fst (tw ! i)) < first_occurrence ws (fst (tw ! j)))
     \<and> (\<forall>w c. (w, c) \<in> set tw \<longrightarrow> w \<in> set ws \<and> c = int (count_list ws w))
     \<and> (\<forall>w \<in> set ws. w \<notin> fst ` set tw \<longrightarrow>
           (\<forall>c \<in> snd ` set tw. int (count_list ws w) \<le> c))
     \<and> (\<forall>w \<in> set ws. w \<notin> fst ` set tw \<longrightarrow>
           (\<forall>kv \<in> set tw. snd kv = int (count_list ws w) \<longrightarrow>
              first_occurrence ws (fst kv) < first_occurrence ws w))
     \<and> (strip text = [] \<longrightarrow> tw = []))"
proof -
  define ws where "ws = findall_words (lower (strip text))"
  define tw where "tw = most_common 5 (Counter ws)"
  have len: "length tw = min 5 (card (set ws))"
    by (simp add: tw_def most_common_length Counter_length)
  have desc: "\<forall>i j. i < j \<and> j < length tw \<longrightarrow> snd (tw ! j) \<le> snd (tw ! i)"
    unfolding tw_def using most_common_descending by blast
  have order: "sorted_wrt (\<lambda>a b. first_occurrence ws (fst a) < first_occurrence ws (fst b))
                 (Counter ws)"
    using Counter_keys_order [of ws] by (simp add: sorted_wrt_map)
  have ties: "\<forall>i j. i < j \<and> j < length tw \<and> snd (tw ! i) = snd (tw ! j) \<longrightarrow>
                first_occurrence ws (fst (tw ! i)) < first_occurrence ws (fst (tw ! j))"
    unfolding tw_def using most_common_stable [OF order] by blast
  have counts: "\<forall>w c. (w, c) \<in> set tw \<longrightarrow> w \<in> set ws \<and> c = int (count_list ws w)"
    unfolding tw_def using most_common_subset [of 5 "Counter ws"] Counter_entry by blast
  have top: "\<forall>w \<in> set ws. w \<notin> fst ` set tw \<longrightarrow>
               (\<forall>c \<in> snd ` set tw. int (count_list ws w) \<le> c)"
  proof (intro ballI impI)
    fix w c
    assume w: "w \<in> set ws" and out: "w \<notin> fst ` set tw" and c: "c \<in> snd ` set tw"
    from w have "map_of (Counter ws) w = Some (int (count_list ws w))"
      by (simp add: Counter_map_of)
    then have inC: "(w, int (count_list ws w)) \<in> set (Counter ws)"
      by (rule map_of_SomeD)
    from out have notin: "(w, int (count_list ws w)) \<notin> set (most_common 5 (Counter ws))"
      unfolding tw_def by force
    from c obtain y where y: "y \<in> set (most_common 5 (Counter ws))" and "c = snd y"
      unfolding tw_def by auto
    with most_common_top [OF inC notin y] show "int (count_list ws w) \<le> c"
      by simp
  qed
  have cut: "\<forall>w \<in> set ws. w \<notin> fst ` set tw \<longrightarrow>
               (\<forall>kv \<in> set tw. snd kv = int (count_list ws w) \<longrightarrow>
                  first_occurrence ws (fst kv) < first_occurrence ws w)"
  proof (intro ballI impI)
    fix w kv
    assume w: "w \<in> set ws" and out: "w \<notin> fst ` set tw" and kv: "kv \<in> set tw"
      and same: "snd kv = int (count_list ws w)"
    from w have "map_of (Counter ws) w = Some (int (count_list ws w))"
      by (simp add: Counter_map_of)
    then have inC: "(w, int (count_list ws w)) \<in> set (Counter ws)"
      by (rule map_of_SomeD)
    from out have notin: "(w, int (count_list ws w)) \<notin> set (most_common 5 (Counter ws))"
      unfolding tw_def by force
    from kv have listed: "kv \<in> set (most_common 5 (Counter ws))"
      unfolding tw_def .
    from most_common_cut [OF order inC notin listed] same
    show "first_occurrence ws (fst kv) < first_occurrence ws w"
      by simp
  qed
  have empty: "strip text = [] \<longrightarrow> tw = []"
    by (simp add: tw_def ws_def lower_def findall_words_def Counter_def most_common_def)
  have "top_words (fst (analyze_text text polarity_scores st)) = tw"
    by (simp add: top_words_analyze tw_def ws_def)
  with len desc ties counts top cut empty show ?thesis
    unfolding Let_def ws_def [symmetric] by simp
qed

theorem top_words_ranked_witness:
  "top_words (fst (analyze_text ''b a B c a d e f'' counting_scorer 0))
     = [(''b'', 2), (''a'', 2), (''c'', 1), (''d'', 1), (''e'', 1)]
   \<and> findall_words (lower (strip ''b a B c a d e f''))
       = [''b'', ''a'', ''b'', ''c'', ''a'', ''d'', ''e'', ''f'']
   \<and> first_occurrence [''b'', ''a'', ''b'', ''c'', ''a'', ''d'', ''e'', ''f''] ''b''
       < first_occurrence [''b'', ''a'', ''b'', ''c'', ''a'', ''d'', ''e'', ''f''] ''a''
   \<and> int (count_list [''b'', ''a'', ''b'', ''c'', ''a'', ''d'', ''e'', ''f''] ''f'') \<le> 1
   \<and> first_occurrence [''b'', ''a'', ''b'', ''c'', ''a'', ''d'', ''e'', ''f''] ''e''
       < first_occurrence [''b'', ''a'', ''b'', ''c'', ''a'', ''d'', ''e'', ''f''] ''f''
   \<and> top_words (fst (analyze_text ''   '' counting_scorer 0)) = []"
proof -
  have ws: "findall_words (lower (strip ''b a B c a d e f''))
              = [''b'', ''a'', ''b'', ''c'', ''a'', ''d'', ''e'', ''f'']"
    by code_simp
  have rank: "most_common 5 (Counter [''b'', ''a'', ''b'', ''c'', ''a'', ''d'', ''e'', ''f''])
                = [(''b'', 2), (''a'', 2), (''c'', 1), (''d'', 1), (''e'', 1)]"
    by code_simp
  have tw: "top_words (fst (analyze_text ''b a B c a d e f'' counting_scorer 0))
              = [(''b'', 2), (''a'', 2), (''c'', 1), (''d'', 1), (''e'', 1)]"
    by (simp add: top_words_analyze ws rank)
  have blank: "strip ''   '' = []"
    by code_simp
  note main = top_words_ranked [of "''b a B c a d e f''" counting_scorer 0,
      unfolded Let_def tw ws]
  from main have "\<forall>i j. i < j
      \<and> j < length [(''b'', 2::int), (''a'', 2), (''c'', 1), (''d'', 1), (''e'', 1)]
      \<and> snd ([(''b'', 2::int), (''a'', 2), (''c'', 1), (''d'', 1), (''e'', 1)] ! i)
        = snd ([(''b'', 2::int), (''a'', 2), (''c'', 1), (''d'', 1), (''e'', 1)] ! j) \<longrightarrow>
      first_occurrence [''b'', ''a'', ''b'', ''c'', ''a'', ''d'', ''e'', ''f'']
        (fst ([(''b'', 2::int), (''a'', 2), (''c'', 1), (''d'', 1), (''e'', 1)] ! i))
      < first_occurrence [''b'', ''a'', ''b'', ''c'', ''a'', ''d'', ''e'', ''f'']
        (fst ([(''b'', 2::int), (''a'', 2), (''c'', 1), (''d'', 1), (''e'', 1)] ! j))"
    by (elim conjE)
  from this [rule_format, of 0 1]
  have tie: "first_occurrence [''b'', ''a'', ''b'', ''c'', ''a'', ''d'', ''e'', ''f''] ''b''
       < first_occurrence [''b'', ''a'', ''b'', ''c'', ''a'', ''d'', ''e'', ''f''] ''a''"
    by simp
  from main have "\<forall>w \<in> set [''b'', ''a'', ''b'', ''c'', ''a'', ''d'', ''e'', ''f''].
      w \<notin> fst ` set [(''b'', 2::int), (''a'', 2), (''c'', 1), (''d'', 1), (''e'', 1)] \<longrightarrow>
      (\<forall>c \<in> snd ` set [(''b'', 2::int), (''a'', 2), (''c'', 1), (''d'', 1), (''e'', 1)].
         int (count_list [''b'', ''a'', ''b'', ''c'', ''a'', ''d'', ''e'', ''f''] w) \<le> c)"
    by (elim conjE)
  then have rest: "int (count_list [''b'', ''a'', ''b'', ''c'', ''a'', ''d'', ''e'', ''f''] ''f'') \<le> 1"
    by simp
  from main have "\<forall>w \<in> set [''b'', ''a'', ''b'', ''c'', ''a'', ''d'', ''e'', ''f''].
      w \<notin> fst ` set [(''b'', 2::int), (''a'', 2), (''c'', 1), (''d'', 1), (''e'', 1)] \<longrightarrow>
      (\<forall>kv \<in> set [(''b'', 2::int), (''a'', 2), (''c'', 1), (''d'', 1), (''e'', 1)].
         snd kv = int (count_list [''b'', ''a'', ''b'', ''c'', ''a'', ''d'', ''e'', ''f''] w) \<longrightarrow>
         first_occurrence [''b'', ''a'', ''b'', ''c'', ''a'', ''d'', ''e'', ''f''] (fst kv)
         < first_occurrence [''b'', ''a'', ''b'', ''c'', ''a'', ''d'', ''e'', ''f''] w)"
    by (elim conjE)
  then have kept: "first_occurrence [''b'', ''a'', ''b'', ''c'', ''a'', ''d'', ''e'', ''f''] ''e''
       < first_occurrence [''b'', ''a'', ''b'', ''c'', ''a'', ''d'', ''e'', ''f''] ''f''"
    by simp
  from top_words_ranked [of "''   ''" counting_scorer 0] blank
  have none: "top_words (fst (analyze_text ''   '' counting_scorer 0)) = []"
    by (simp add: Let_def)
  from tw ws tie rest kept none show ?thesis by simp
qed

text \<open>
  C4. The text \<open>Good good bad! great, GREAT.\<close> tokenizes to good, good, bad, great,
  great; its word count is 5 and its top words are (good, 2), (great, 2), (bad, 1), good
  before great because it occurs first.
\<close>

theorem example_good_bad_great:
  "findall_words (lower (strip ''Good good bad! great, GREAT.''))
     = [''good'', ''good'', ''bad'', ''great'', ''great'']
   \<and> words (fst (analyze_text ''Good good bad! great, GREAT.'' polarity_scores st)) = 5
   \<and> top_words (fst (analyze_text ''Good good bad! great, GREAT.'' polarity_scores st))
       = [(''good'', 2), (''great'', 2), (''bad'', 1)]"
proof -
  have tokens: "findall_words (lower (strip ''Good good bad! great, GREAT.''))
                  = [''good'', ''good'', ''bad'', ''great'', ''great'']"
    by code_simp
  have ranking: "most_common 5 (Counter [''good'', ''good'', ''bad'', ''great'', ''great''])
                   = [(''good'', 2), (''great'', 2), (''bad'', 1)]"
    by code_simp
  show ?thesis
    by (simp add: words_analyze top_words_analyze tokens ranking)
qed


section \<open>Result invariant\<close>

text \<open>
  C10. In every result the count of non-whitespace characters is at most the count of
  all characters, every count listed in \<open>top_words\<close> is at least 1, and the counts listed
  in \<open>top_words\<close> add up to at most \<open>words\<close>.
\<close>

theorem result_invariant:
  "chars_without_spaces (fst (analyze_text text polarity_scores st))
     \<le> chars_with_spaces (fst (analyze_text text polarity_scores st))
   \<and> (\<forall>kv \<in> set (top_words (fst (analyze_text text polarity_scores st))). 1 \<le> snd kv)
   \<and> sum_list (map snd (top_words (fst (analyze_text text polarity_scores st))))
       \<le> words (fst (analyze_text text polarity_scores st))"
proof -
  define ws where "ws = findall_words (lower (strip text))"
  have pos: "1 \<le> snd kv" if "kv \<in> set (Counter ws)" for kv
  proof -
    from that have "(fst kv, snd kv) \<in> set (Counter ws)" by simp
    from Counter_entry [OF this] count_list_pos [of "fst kv" ws] show ?thesis by simp
  qed
  have "\<forall>kv \<in> set (most_common 5 (Counter ws)). 1 \<le> snd kv"
    using most_common_subset [of 5 "Counter ws"] pos by blast
  moreover have "sum_list (map snd (most_common 5 (Counter ws))) \<le> int (length ws)"
  proof -
    have "\<forall>kv \<in> set (Counter ws). 0 \<le> snd kv"
      using pos by force
    from most_common_sum [OF this] show ?thesis by (simp add: Counter_sum)
  qed
  ultimately show ?thesis
    by (simp add: chars_with_analyze chars_without_analyze top_words_analyze words_analyze ws_def)
qed

theorem result_invariant_witness:
  "chars_without_spaces (fst (analyze_text ''it is what it is, it was'' counting_scorer 0)) = 18
   \<and> chars_with_spaces (fst (analyze_text ''it is what it is, it was'' counting_scorer 0)) = 24
   \<and> (''it'', 3) \<in> set (top_words (fst (analyze_text ''it is what it is, it was'' counting_scorer 0)))
   \<and> (1::int) \<le> snd (''it'', 3::int)
   \<and> sum_list (map snd (top_words (fst (analyze_text ''it is what it is, it was'' counting_scorer 0))))
       \<le> words (fst (analyze_text ''it is what it is, it was'' counting_scorer 0))"
proof -
  have ws: "findall_words (lower (strip ''it is what it is, it was''))
              = [''it'', ''is'', ''what'', ''it'', ''is'', ''it'', ''was'']"
    by code_simp
  have rank: "most_common 5 (Counter [''it'', ''is'', ''what'', ''it'', ''is'', ''it'', ''was''])
                = [(''it'', 3), (''is'', 2), (''what'', 1), (''was'', 1)]"
    by code_simp
  have tw: "top_words (fst (analyze_text ''it is what it is, it was'' counting_scorer 0))
              = [(''it'', 3), (''is'', 2), (''what'', 1), (''was'', 1)]"
    by (simp add: top_words_analyze ws rank)
  have trimmed: "strip ''it is what it is, it was'' = ''it is what it is, it was''"
    by code_simp
  have nonspace: "filter (\<lambda>c. \<not> isspace c) ''it is what it is, it was'' = ''itiswhatitis,itwas''"
    by code_simp
  have counts:
    "chars_without_spaces (fst (analyze_text ''it is what it is, it was'' counting_scorer 0)) = 18"
    "chars_with_spaces (fst (analyze_text ''it is what it is, it was'' counting_scorer 0)) = 24"
    unfolding chars_without_analyze chars_with_analyze trimmed nonspace by simp_all
  from result_invariant [of "''it is what it is, it was''" counting_scorer 0] counts tw
  show ?thesis by simp
qed


section \<open>Determinism\<close>





section \<open>The word pattern and whitespace\<close>

lemma space_not_class: "isspace c \<Longrightarrow> \<not> in_class c"
  by (auto simp: isspace_def in_class_def is_word_char_def isalnum_def ord_def)

lemma class_word_or_apostrophe: "\<not> in_class c \<Longrightarrow> \<not> is_word_char c"
  by (simp add: in_class_def)

lemma isspace_lower_char: "isspace (lower_char c) = isspace c"
  by (auto simp: isspace_def lower_char_def ord_def)

lemma lower_lstrip: "lower (lstrip s) = lstrip (lower s)"
  by (simp add: lower_def lstrip_def dropWhile_map comp_def isspace_lower_char)

lemma lower_rstrip: "lower (rstrip s) = rstrip (lower s)"
  by (simp add: lower_def rstrip_def dropWhile_map comp_def isspace_lower_char rev_map)

lemma lower_strip: "lower (strip s) = strip (lower s)"
  by (simp add: strip_def lower_lstrip lower_rstrip)

lemma match_here_cong:
  "word_opt b1 = word_opt b2 \<Longrightarrow> match_here b1 s = match_here b2 s"
  by (simp add: match_here_def at_boundary_def)

lemma findall_from_cong:
  "word_opt b1 = word_opt b2 \<Longrightarrow> findall_from b1 s = findall_from b2 s"
  by (cases s) (simp_all add: match_here_cong [of b1 b2])

lemma match_here_outside: "\<not> in_class c \<Longrightarrow> match_here b (c # cs) = None"
  by (simp add: match_here_def)

lemma findall_from_skip:
  "\<not> in_class c \<Longrightarrow> findall_from b (c # cs) = findall_from None cs"
  using findall_from_cong [of "Some c" None cs]
  by (simp add: match_here_outside in_class_def)

lemma findall_from_outside:
  "\<forall>c \<in> set t. \<not> in_class c \<Longrightarrow> findall_from b t = []"
proof (induction t arbitrary: b)
  case Nil
  show ?case by simp
next
  case (Cons c t)
  then have "findall_from b (c # t) = findall_from None t"
    by (intro findall_from_skip) simp
  with Cons show ?case by simp
qed

lemma findall_words_lstrip: "findall_words (lstrip s) = findall_words s"
  unfolding findall_words_def lstrip_def
proof (induction s)
  case Nil
  show ?case by simp
next
  case (Cons c s)
  show ?case
  proof (cases "isspace c")
    case True
    then have "findall_from None (c # s) = findall_from None s"
      by (intro findall_from_skip space_not_class)
    with True Cons show ?thesis by simp
  next
    case False
    then show ?thesis by simp
  qed
qed

lemma char_at_append:
  "i < length s \<Longrightarrow> char_at (s @ t) i = char_at s i"
  by (simp add: char_at_def nth_append)

lemma word_opt_char_at_append:
  assumes "\<forall>c \<in> set t. \<not> is_word_char c" and "i \<le> length s"
  shows "word_opt (char_at (s @ t) i) = word_opt (char_at s i)"
proof (cases "i < length s")
  case True
  then show ?thesis by (simp add: char_at_append)
next
  case False
  with assms(2) have i: "i = length s" by simp
  show ?thesis
  proof (cases t)
    case Nil
    then show ?thesis by simp
  next
    case (Cons d ds)
    with assms(1) i show ?thesis by (simp add: char_at_def)
  qed
qed

lemma backtrack_append:
  assumes "\<forall>c \<in> set t. \<not> is_word_char c"
  shows "n \<le> length s \<Longrightarrow> backtrack n (s @ t) = backtrack n s"
proof (induction n)
  case 0
  show ?case by simp
next
  case (Suc n)
  then have "n < length s" by simp
  then have "char_at (s @ t) n = char_at s n"
    by (rule char_at_append)
  moreover have "word_opt (char_at (s @ t) (Suc n)) = word_opt (char_at s (Suc n))"
    using assms Suc.prems by (rule word_opt_char_at_append)
  ultimately show ?case
    using Suc by (simp add: at_boundary_def)
qed

lemma takeWhile_class_append:
  assumes "\<forall>c \<in> set t. \<not> in_class c"
  shows "takeWhile in_class (s @ t) = takeWhile in_class s"
proof (cases "\<forall>c \<in> set s. in_class c")
  case True
  then have whole: "takeWhile in_class (s @ t) = s @ takeWhile in_class t"
    by (intro takeWhile_append2) simp
  from assms have none: "takeWhile in_class t = []"
    by (cases t) auto
  from True have self: "takeWhile in_class s = s"
    by simp
  show ?thesis unfolding whole none self by simp
next
  case False
  then obtain x where "x \<in> set s" and "\<not> in_class x" by blast
  then show ?thesis by (rule takeWhile_append1)
qed

lemma match_here_append:
  assumes "\<forall>c \<in> set t. \<not> in_class c" and "s \<noteq> []"
  shows "match_here b (s @ t) = match_here b s"
proof -
  from assms(1) have nw: "\<forall>c \<in> set t. \<not> is_word_char c"
    by (simp add: in_class_def)
  have "length (takeWhile in_class s) \<le> length s"
    by (rule length_takeWhile_le)
  from backtrack_append [OF nw this] assms show ?thesis
    by (simp add: match_here_def takeWhile_class_append char_at_append)
qed

lemma match_here_le: "match_here b s = Some n \<Longrightarrow> n \<le> length s"
proof -
  assume "match_here b s = Some n"
  then have "n \<le> length (takeWhile in_class s)"
    by (auto simp: match_here_def split: if_splits dest: backtrack_bounds)
  also have "\<dots> \<le> length s" by (rule length_takeWhile_le)
  finally show ?thesis .
qed

lemma findall_from_step:
  "s \<noteq> [] \<Longrightarrow> findall_from b s =
     (case match_here b s of
        Some n \<Rightarrow> take n s # findall_from (char_at s (n - 1)) (drop n s)
      | None \<Rightarrow> findall_from (Some (hd s)) (tl s))"
  by (cases s) (simp_all split: option.split)

lemma findall_from_append:
  assumes "\<forall>c \<in> set t. \<not> in_class c"
  shows "findall_from b (s @ t) = findall_from b s"
proof (induction b s rule: findall_from.induct)
  case (1 before)
  from assms show ?case by (simp add: findall_from_outside)
next
  case (2 before c cs)
  define u where "u = c # cs"
  have u: "u \<noteq> []" "u @ t \<noteq> []" "hd (u @ t) = hd u" "tl (u @ t) = tl u @ t"
    by (simp_all add: u_def)
  have same: "match_here before (u @ t) = match_here before u"
    using assms u(1) by (rule match_here_append)
  show ?case
  proof (cases "match_here before u")
    case None
    with 2(1) have "findall_from (Some c) (cs @ t) = findall_from (Some c) cs"
      by (simp add: u_def)
    then have "findall_from (Some (hd u)) (tl u @ t) = findall_from (Some (hd u)) (tl u)"
      by (simp add: u_def)
    with None same show ?thesis
      unfolding u_def [symmetric] by (simp add: findall_from_step [OF u(1)]
          findall_from_step [OF u(2)] u(3,4))
  next
    case (Some n)
    then have n: "0 < n" "n \<le> length u"
      by (auto dest: match_here_pos match_here_le)
    then have at: "char_at (u @ t) (n - 1) = char_at u (n - 1)"
      by (intro char_at_append) simp
    from n have dr: "drop n (u @ t) = drop n u @ t" and tk: "take n (u @ t) = take n u"
      by simp_all
    from 2(2) Some
    have "findall_from (char_at u (n - 1)) (drop n u @ t) = findall_from (char_at u (n - 1)) (drop n u)"
      by (simp add: u_def)
    with Some same at dr tk show ?thesis
      unfolding u_def [symmetric] by (simp add: findall_from_step [OF u(1)]
          findall_from_step [OF u(2)])
  qed
qed

lemma findall_words_rstrip: "findall_words (rstrip s) = findall_words s"
proof -
  have "s = rstrip s @ rev (takeWhile isspace (rev s))"
    unfolding rstrip_def by (metis rev_append rev_rev_ident takeWhile_dropWhile_id)
  moreover have "\<forall>c \<in> set (rev (takeWhile isspace (rev s))). \<not> in_class c"
    by (auto dest: set_takeWhileD space_not_class)
  ultimately show ?thesis
    unfolding findall_words_def by (metis findall_from_append)
qed

lemma findall_words_strip: "findall_words (strip s) = findall_words s"
  by (simp add: strip_def findall_words_rstrip findall_words_lstrip)

lemma tokens_of_trimmed: "findall_words (lower (strip text)) = findall_words (lower text)"
  by (simp add: lower_strip findall_words_strip)


section \<open>The matches as runs\<close>

lemma apostrophe_not_word: "\<not> is_word_char (CHR 0x27)"
  by (simp add: is_word_char_def isalnum_def ord_def)

lemma apostrophe_in_class: "in_class (CHR 0x27)"
  by (simp add: in_class_def)

lemma in_class_cases: "in_class c \<longleftrightarrow> is_word_char c \<or> c = CHR 0x27"
  by (simp add: in_class_def)

lemma rstrip_apostrophes_snoc:
  "rstrip_apostrophes (r @ [x]) = (if x = CHR 0x27 then rstrip_apostrophes r else r @ [x])"
  by (simp add: rstrip_apostrophes_def)

lemma char_at_mid: "char_at (r @ x # t) (length r) = Some x"
  by (simp add: char_at_def)

lemma char_at_after: "char_at (r @ t) (length r) = (case t of [] \<Rightarrow> None | d # ds \<Rightarrow> Some d)"
  by (cases t) (simp_all add: char_at_def)

lemma backtrack_run:
  assumes "\<forall>c \<in> set r. in_class c" and "t = [] \<or> \<not> is_word_char (hd t)"
  shows "backtrack (length r) (r @ t) =
           (if rstrip_apostrophes r = [] then None else Some (length (rstrip_apostrophes r)))"
  using assms
proof (induction r arbitrary: t rule: rev_induct)
  case Nil
  show ?case by (simp add: rstrip_apostrophes_def)
next
  case (snoc x r)
  from snoc.prems(2) have after: "\<not> word_opt (char_at ((r @ [x]) @ t) (Suc (length r)))"
    using char_at_after [of "r @ [x]" t] by (cases t) auto
  have here: "char_at ((r @ [x]) @ t) (length r) = Some x"
    using char_at_mid [of r x t] by simp
  show ?case
  proof (cases "x = CHR 0x27")
    case True
    have "backtrack (length r) (r @ (x # t)) =
            (if rstrip_apostrophes r = [] then None else Some (length (rstrip_apostrophes r)))"
      using snoc.prems(1) True by (intro snoc.IH) (simp_all add: apostrophe_not_word)
    with True here after show ?thesis
      by (simp add: at_boundary_def apostrophe_not_word rstrip_apostrophes_snoc)
  next
    case False
    with snoc.prems(1) have "is_word_char x"
      by (simp add: in_class_cases)
    with False here after show ?thesis
      by (simp add: at_boundary_def rstrip_apostrophes_snoc)
  qed
qed

lemma trim_apostrophes_Cons:
  "trim_apostrophes (CHR 0x27 # r) = trim_apostrophes r"
  by (simp add: trim_apostrophes_def)

lemma trim_apostrophes_word:
  "c \<noteq> CHR 0x27 \<Longrightarrow> trim_apostrophes (c # r) = rstrip_apostrophes (c # r)"
  by (simp add: trim_apostrophes_def)

lemma run_tokens_Nil: "run_tokens [] = []"
  by (simp add: run_tokens_def)

lemma run_tokens_outside: "\<not> in_class c \<Longrightarrow> run_tokens (c # cs) = run_tokens cs"
  by (simp add: run_tokens_def)

lemma run_tokens_apostrophe: "run_tokens (CHR 0x27 # cs) = run_tokens cs"
proof (cases cs)
  case Nil
  then show ?thesis
    by (simp add: run_tokens_def apostrophe_in_class trim_apostrophes_def rstrip_apostrophes_def)
next
  case (Cons d ds)
  show ?thesis
  proof (cases "in_class d")
    case True
    with Cons show ?thesis
      by (simp add: run_tokens_def apostrophe_in_class trim_apostrophes_Cons)
  next
    case False
    with Cons show ?thesis
      by (simp add: run_tokens_def apostrophe_in_class trim_apostrophes_def rstrip_apostrophes_def)
  qed
qed

lemma run_tokens_apostrophes:
  "\<forall>c \<in> set a. c = CHR 0x27 \<Longrightarrow> run_tokens (a @ t) = run_tokens t"
  by (induction a) (simp_all add: run_tokens_apostrophe)

lemma takeWhile_run:
  assumes "\<forall>c \<in> set a. in_class c" and "t = [] \<or> \<not> in_class (hd t)"
  shows "takeWhile in_class (a @ t) = a"
proof -
  from assms(1) have "takeWhile in_class (a @ t) = a @ takeWhile in_class t"
    by (intro takeWhile_append2) simp
  moreover from assms(2) have "takeWhile in_class t = []"
    by (cases t) auto
  ultimately show ?thesis by simp
qed

lemma rstrip_apostrophes_all:
  "\<forall>c \<in> set a. c = CHR 0x27 \<Longrightarrow> rstrip_apostrophes a = []"
  by (simp add: rstrip_apostrophes_def)

lemma findall_from_after_token:
  assumes IH: "\<And>ys b. length ys < length (a @ t) \<Longrightarrow> \<not> word_opt b \<Longrightarrow>
                 findall_from b ys = run_tokens ys"
    and a: "\<forall>c \<in> set a. c = CHR 0x27"
    and t: "t = [] \<or> \<not> in_class (hd t)"
  shows "findall_from (Some w) (a @ t) = run_tokens t"
proof (cases a)
  case Nil
  show ?thesis
  proof (cases t)
    case Nil
    with \<open>a = []\<close> show ?thesis by (simp add: run_tokens_Nil)
  next
    case (Cons d ds)
    with t have d: "\<not> in_class d" by simp
    then have "findall_from (Some w) (d # ds) = findall_from None ds"
      by (rule findall_from_skip)
    also have "\<dots> = run_tokens ds"
      using Cons \<open>a = []\<close> by (intro IH) simp_all
    also have "\<dots> = run_tokens (d # ds)"
      using d by (simp add: run_tokens_outside)
    finally show ?thesis using Cons \<open>a = []\<close> by simp
  qed
next
  case (Cons x a')
  with a have x: "x = CHR 0x27" and a': "\<forall>c \<in> set a'. c = CHR 0x27"
    by simp_all
  have cls: "\<forall>c \<in> set a. in_class c"
  proof
    fix c assume "c \<in> set a"
    with a have "c = CHR 0x27" by (rule bspec)
    then show "in_class c" by (simp only: apostrophe_in_class)
  qed
  from t have t': "t = [] \<or> \<not> is_word_char (hd t)"
    by (auto simp: in_class_def)
  have "backtrack (length a) (a @ t) = None"
    using backtrack_run [OF cls t'] rstrip_apostrophes_all [OF a] by simp
  then have "match_here (Some w) (a @ t) = None"
    by (simp add: match_here_def takeWhile_run [OF cls t])
  then have "findall_from (Some w) (a @ t) = findall_from (Some x) (a' @ t)"
    using Cons by simp
  also have "\<dots> = run_tokens (a' @ t)"
    using Cons x by (intro IH) (simp_all add: apostrophe_not_word)
  also have "\<dots> = run_tokens t"
    using a' by (rule run_tokens_apostrophes)
  finally show ?thesis .
qed

lemma rstrip_apostrophes_split:
  "r = rstrip_apostrophes r @ rev (takeWhile (\<lambda>c. c = CHR 0x27) (rev r))"
  unfolding rstrip_apostrophes_def by (metis rev_append rev_rev_ident takeWhile_dropWhile_id)

lemma rstrip_apostrophes_last:
  assumes "rstrip_apostrophes r \<noteq> []"
  shows "last (rstrip_apostrophes r) \<in> set r \<and> last (rstrip_apostrophes r) \<noteq> CHR 0x27"
proof -
  let ?d = "dropWhile (\<lambda>c. c = CHR 0x27) (rev r)"
  from assms have ne: "?d \<noteq> []" by (simp add: rstrip_apostrophes_def)
  then have "hd ?d \<noteq> CHR 0x27"
    using hd_dropWhile [of "\<lambda>c. c = CHR 0x27" "rev r"] by simp
  moreover from ne have "hd ?d \<in> set r"
    using set_dropWhileD [of "hd ?d" "\<lambda>c. c = CHR 0x27" "rev r"] by simp
  moreover from ne have "last (rstrip_apostrophes r) = hd ?d"
    by (simp add: rstrip_apostrophes_def last_rev)
  ultimately show ?thesis by simp
qed

lemma findall_from_runs: "\<not> word_opt b \<Longrightarrow> findall_from b s = run_tokens s"
proof (induction s arbitrary: b rule: length_induct)
  case (1 s)
  then have IH: "\<And>ys b. length ys < length s \<Longrightarrow> \<not> word_opt b \<Longrightarrow>
                   findall_from b ys = run_tokens ys"
    by blast
  show ?case
  proof (cases s)
    case Nil
    then show ?thesis by (simp add: run_tokens_Nil)
  next
    case (Cons c cs)
    consider (outside) "\<not> in_class c" | (apostrophe) "c = CHR 0x27" | (word) "is_word_char c"
      by (auto simp: in_class_def)
    then show ?thesis
    proof cases
      case outside
      then have "findall_from b (c # cs) = findall_from None cs"
        by (rule findall_from_skip)
      also have "\<dots> = run_tokens cs"
        using Cons by (intro IH) simp_all
      finally show ?thesis
        using Cons outside by (simp add: run_tokens_outside)
    next
      case apostrophe
      with 1(2) have "match_here b (c # cs) = None"
        by (simp add: match_here_def at_boundary_def char_at_def apostrophe_not_word)
      then have "findall_from b (c # cs) = findall_from (Some c) cs"
        by simp
      also have "\<dots> = run_tokens cs"
        using Cons apostrophe by (intro IH) (simp_all add: apostrophe_not_word)
      finally show ?thesis
        using Cons apostrophe by (simp add: run_tokens_apostrophe)
    next
      case word
      define r where "r = takeWhile in_class s"
      define t where "t = dropWhile in_class s"
      define k where "k = rstrip_apostrophes r"
      define a where "a = rev (takeWhile (\<lambda>c. c = CHR 0x27) (rev r))"
      from word have cc: "in_class c" and cn: "c \<noteq> CHR 0x27"
        using apostrophe_not_word by (auto simp: in_class_def)
      have s: "s = r @ t"
        by (simp add: r_def t_def)
      have cls: "\<forall>c \<in> set r. in_class c"
        by (auto simp: r_def dest: set_takeWhileD)
      have t: "t = [] \<or> \<not> in_class (hd t)"
        unfolding t_def using hd_dropWhile [of in_class s] by blast
      then have t': "t = [] \<or> \<not> is_word_char (hd t)"
        by (auto simp: in_class_def)
      have r: "r = c # takeWhile in_class cs"
        using Cons cc by (simp add: r_def)
      have ka: "r = k @ a"
        unfolding k_def a_def by (rule rstrip_apostrophes_split)
      have a: "\<forall>c \<in> set a. c = CHR 0x27"
        by (auto simp: a_def dest: set_takeWhileD)
      have kne: "k \<noteq> []"
        using r cn by (auto simp: k_def rstrip_apostrophes_def dropWhile_eq_Nil_conv)
      have "backtrack (length r) (r @ t) = Some (length k)"
        using backtrack_run [OF cls t'] kne by (simp add: k_def)
      moreover have "at_boundary b (char_at s 0)"
        using 1(2) word Cons by (simp add: at_boundary_def char_at_def)
      ultimately have m: "match_here b s = Some (length k)"
        by (simp add: match_here_def r_def [symmetric] s [symmetric])
      have sk: "s = k @ (a @ t)"
        using s ka by simp
      have tk: "take (length k) s = k" and dr: "drop (length k) s = a @ t"
        by (simp_all add: sk)
      have lastw: "is_word_char (last k)"
        using rstrip_apostrophes_last [of r] kne cls by (auto simp: k_def in_class_def)
      have at: "char_at s (length k - 1) = Some (last k)"
      proof (cases k rule: rev_cases)
        case Nil
        with kne show ?thesis by simp
      next
        case (snoc k' x)
        then show ?thesis
          using char_at_mid [of k' x "a @ t"] by (simp add: sk)
      qed
      have "s \<noteq> []"
        using Cons by simp
      from findall_from_step [OF this, of b] m tk dr at
      have step: "findall_from b s = k # findall_from (Some (last k)) (a @ t)"
        by simp
      have "length (a @ t) < length s"
        using kne by (simp add: sk)
      then have tail: "findall_from (Some (last k)) (a @ t) = run_tokens t"
        using IH a t by (intro findall_from_after_token) simp_all
      have "t = dropWhile in_class cs"
        using Cons cc by (simp add: t_def)
      moreover have "trim_apostrophes r = k"
        using r cn by (simp add: k_def trim_apostrophes_word)
      ultimately have "run_tokens s = k # run_tokens t"
        using Cons cc kne r by (simp add: run_tokens_def)
      with step tail show ?thesis by simp
    qed
  qed
qed

lemma findall_words_runs: "findall_words s = run_tokens s"
  by (simp add: findall_words_def findall_from_runs)

text \<open>
  C5. The word count is the number of matches of the word pattern on the lowercased
  trimmed text. Trimming changes no match, so it is also the number of matches on the
  lowercased text as given; and the matches are the maximal runs of word characters and
  apostrophes, each cut back to its first and last word character.
\<close>

theorem word_count_is_match_count:
  "words (fst (analyze_text text polarity_scores st))
     = int (length (findall_words (lower (strip text))))
   \<and> words (fst (analyze_text text polarity_scores st)) = int (length (findall_words (lower text)))
   \<and> words (fst (analyze_text text polarity_scores st)) = int (length (run_tokens (lower text)))"
  using tokens_of_trimmed [of "text"] findall_words_runs [of "lower text"]
  by (simp add: words_analyze)

theorem word_count_is_match_count_witness:
  "findall_words (lower ('' Don't 'STOP' it's - ' '' @ [CHR 0x0A]))
     = [''don't'', ''stop'', ''it's'']
   \<and> words (fst (analyze_text ('' Don't 'STOP' it's - ' '' @ [CHR 0x0A]) counting_scorer 0)) = 3"
proof -
  have tokens: "findall_words (lower ('' Don't 'STOP' it's - ' '' @ [CHR 0x0A]))
                  = [''don't'', ''stop'', ''it's'']"
    by code_simp
  from word_count_is_match_count [of "'' Don't 'STOP' it's - ' '' @ [CHR 0x0A]" counting_scorer 0]
    tokens
  show ?thesis by simp
qed

end
